theory Spec2Isabelle
  imports Main "HOL-Library.Sublist"
begin

section \<open>Data model (frontend/src/api/client.ts)\<close>

text \<open>
  The interfaces of the API client become records. A field whose name clashes with a
  constant of HOL or with a field of another record carries a prefix. Strings are byte
  lists holding the UTF-8 form of the JavaScript string; numbers that the pipeline
  reports as integers are \<open>int\<close>. An optional field (\<open>ended_at?: string\<close>) is an
  \<open>option\<close>, \<open>None\<close> standing for an absent, \<open>undefined\<close> or \<open>null\<close> value.
\<close>

record ScanResult =
  scan_id :: int
  repo :: string
  status :: string
  created_at :: string
  ended_at :: "string option"
  tokens_used :: int

record ScanLog =
  step :: string
  tokens_input :: int
  tokens_output :: int
  tokens_total :: int
  model :: string
  message :: string
  timestamp :: string

record Vulnerability =
  vuln_id :: string
  vuln_path :: string
  vuln_line :: int
  vuln_msg :: string
  vuln_severity :: string
  vuln_type :: string

record Scanner =
  vulnerabilities :: "Vulnerability list"
  detected_libraries :: "(string \<times> string list) list"

record Ecosystem =
  language :: string
  docker_image :: string
  dep_install_cmd :: string

record Analysis =
  an_id :: string
  an_path :: string
  an_msg :: string
  an_severity :: string

record Remediation =
  rem_path :: string
  original_code :: string
  fix_code :: string
  test_code :: string
  rem_type :: string

record Verification =
  ver_path :: string
  verified :: bool
  ver_error :: "string option"

record Summary =
  verified_fixes :: int
  total_vulnerabilities :: int

text \<open>
  The inner \<open>report\<close> object of a \<open>ScanReport\<close>: every section is optional. Its own
  \<open>report\<close> and \<open>error\<close> members are named \<open>summary\<close> and \<open>env_error\<close> here.
\<close>

record ReportEnvelope =
  scanner :: "Scanner option"
  ecosystem :: "Ecosystem option"
  analysis :: "Analysis list option"
  remediation :: "Remediation list option"
  verification :: "Verification list option"
  summary :: "Summary option"
  env_error :: "string option"


section \<open>JavaScript primitives used by the components\<close>

text \<open>
  \<open>String.prototype.toLowerCase\<close> on the ASCII letters. The components compare its
  result only with \<open>pending\<close>, \<open>queued\<close> and \<open>finished\<close>; no character outside ASCII
  lower-cases to a letter of these words, so the comparison is decided by this part.
\<close>

definition lower_char :: "char \<Rightarrow> char" where
  "lower_char c =
     (let n = (of_char c :: nat) in if 65 \<le> n \<and> n \<le> 90 then char_of (n + 32) else c)"

definition toLowerCase :: "string \<Rightarrow> string" where
  "toLowerCase s = map lower_char s"


text \<open>\<open>Number.prototype.toString\<close> on an integer: decimal digits, a sign when negative.\<close>

definition digit_char :: "nat \<Rightarrow> char" where
  "digit_char d = ''0123456789'' ! (d mod 10)"

fun decimal :: "nat \<Rightarrow> string" where
  "decimal n = (if n < 10 then [digit_char n] else decimal (n div 10) @ [digit_char (n mod 10)])"

declare decimal.simps [simp del]

definition Number_toString :: "int \<Rightarrow> string" where
  "Number_toString n = (if n < 0 then ''-'' @ decimal (nat (- n)) else decimal (nat n))"


text \<open>\<open>x || 0\<close> on a number that may be \<open>undefined\<close>.\<close>

fun or_zero :: "int option \<Rightarrow> int" where
  "or_zero None = 0"
| "or_zero (Some v) = (if v = 0 then 0 else v)"

text \<open>
  \<open>String.prototype.split('\n')\<close>: the pieces between the newlines, always at least
  one; a character that is not a newline joins the first piece of the rest.
\<close>

fun split_nl :: "string \<Rightarrow> string list" where
  "split_nl [] = [[]]"
| "split_nl (c # cs) =
     (if c = CHR 0x0A then [] # split_nl cs
      else (case split_nl cs of [] \<Rightarrow> [[c]] | l # ls \<Rightarrow> (c # l) # ls))"

text \<open>\<open>String.prototype.includes\<close>: the argument occurs as a contiguous piece.\<close>

definition includes_str :: "string \<Rightarrow> string \<Rightarrow> bool" where
  "includes_str s t = sublist t s"

section \<open>Dashboard: job list poller\<close>

record Dashboard =
  scans :: "ScanResult list"
  loading :: bool
  error :: "string option"
  selectedScanId :: "int option"
  scanLogs :: "ScanLog list"
  logsLoading :: bool
  reportScanId :: "int option"
  currentTime :: int

text \<open>The outcome of \<open>await getScans()\<close>: the fetched list, or a rejected promise.\<close>

datatype 'a fetched = Resolved 'a | Rejected

text \<open>
  \<open>fetchScans(silent)\<close> runs in two parts around its \<open>await\<close>: the statements before
  the request is sent, and the \<open>try\<close>/\<open>catch\<close>/\<open>finally\<close> continuation once the request
  has settled. Each part is a state transformer; other handlers may run in between.
\<close>

definition fetchScans_begin :: "bool \<Rightarrow> Dashboard \<Rightarrow> Dashboard" where
  "fetchScans_begin silent st =
     (let st1 = (if \<not> silent then st\<lparr>loading := True\<rparr> else st);
          st2 = (if \<not> silent then st1\<lparr>error := None\<rparr> else st1)
      in st2)"

definition fetchScans_settle :: "bool \<Rightarrow> ScanResult list fetched \<Rightarrow> Dashboard \<Rightarrow> Dashboard" where
  "fetchScans_settle silent outcome st =
     (let st1 = (case outcome of
                   Resolved data \<Rightarrow> st\<lparr>scans := data\<rparr>
                 | Rejected \<Rightarrow>
                     (if \<not> silent then st\<lparr>error := Some ''Failed to fetch scans''\<rparr> else st));
          st2 = (if \<not> silent then st1\<lparr>loading := False\<rparr> else st1)
      in st2)"

definition fetchScans :: "bool \<Rightarrow> ScanResult list fetched \<Rightarrow> Dashboard \<Rightarrow> Dashboard" where
  "fetchScans silent outcome st = fetchScans_settle silent outcome (fetchScans_begin silent st)"

section \<open>Dashboard: duration calculator\<close>





section \<open>Dashboard: token ledger\<close>

record Fallback =
  fb_input :: int
  fb_output :: int

definition fallbacks :: "string \<rightharpoonup> Fallback" where
  "fallbacks =
     [''Ecosystem Detection'' \<mapsto> \<lparr>fb_input = 150, fb_output = 200\<rparr>,
      ''Remediation'' \<mapsto> \<lparr>fb_input = 400, fb_output = 600\<rparr>]"

definition getInput :: "ScanLog \<Rightarrow> int" where
  "getInput log =
     (if tokens_input log > 0 then tokens_input log
      else or_zero (map_option fb_input (fallbacks (step log))))"

definition getOutput :: "ScanLog \<Rightarrow> int" where
  "getOutput log =
     (if tokens_output log > 0 then tokens_output log
      else or_zero (map_option fb_output (fallbacks (step log))))"





text \<open>
  The token cell of a job row. \<open>toLocaleString\<close> is the platform's locale-dependent
  rendering of a number and is a parameter. The last literal is the em dash U+2014.
\<close>

definition em_dash :: string where
  "em_dash = [CHR 0xE2, CHR 0x80, CHR 0x94]"

definition tokenCell :: "(int \<Rightarrow> string) \<Rightarrow> ScanResult \<Rightarrow> string" where
  "tokenCell toLocaleString scan =
     (if tokens_used scan > 0 then toLocaleString (tokens_used scan)
      else if toLowerCase (status scan) = ''finished'' then ''~1,200''
      else em_dash)"

section \<open>ReportModal: report aggregator and pipeline health\<close>








text \<open>\<open>Object.keys\<close> of the envelope: the names of the sections that are present.\<close>

definition Object_keys :: "ReportEnvelope \<Rightarrow> string list" where
  "Object_keys env =
     (if scanner env \<noteq> None then [''scanner''] else []) @
     (if ecosystem env \<noteq> None then [''ecosystem''] else []) @
     (if analysis env \<noteq> None then [''analysis''] else []) @
     (if remediation env \<noteq> None then [''remediation''] else []) @
     (if verification env \<noteq> None then [''verification''] else []) @
     (if summary env \<noteq> None then [''report''] else []) @
     (if env_error env \<noteq> None then [''error''] else [])"



section \<open>ReportModal: verification log parser\<close>

text \<open>
  The regular expression \<open>/^(FAIL|ERROR):\s+(\w+)/\<close>, piece by piece.
  \<open>\w\<close> is an ASCII letter, digit or underscore.
\<close>

definition is_word :: "char \<Rightarrow> bool" where
  "is_word c =
     (let n = (of_char c :: nat)
      in (48 \<le> n \<and> n \<le> 57) \<or> (65 \<le> n \<and> n \<le> 90) \<or> n = 95 \<or> (97 \<le> n \<and> n \<le> 122))"

text \<open>
  \<open>\s\<close> matches one white space or line terminator character: U+0009 to U+000D,
  U+0020, U+00A0, U+1680, U+2000 to U+200A, U+2028, U+2029, U+202F, U+205F, U+3000 and
  U+FEFF. These are their UTF-8 forms.
\<close>

definition space_seqs :: "string list" where
  "space_seqs =
     [[CHR 0x09], [CHR 0x0A], [CHR 0x0B], [CHR 0x0C], [CHR 0x0D], [CHR 0x20],
      [CHR 0xC2, CHR 0xA0],
      [CHR 0xE1, CHR 0x9A, CHR 0x80],
      [CHR 0xE2, CHR 0x80, CHR 0x80], [CHR 0xE2, CHR 0x80, CHR 0x81],
      [CHR 0xE2, CHR 0x80, CHR 0x82], [CHR 0xE2, CHR 0x80, CHR 0x83],
      [CHR 0xE2, CHR 0x80, CHR 0x84], [CHR 0xE2, CHR 0x80, CHR 0x85],
      [CHR 0xE2, CHR 0x80, CHR 0x86], [CHR 0xE2, CHR 0x80, CHR 0x87],
      [CHR 0xE2, CHR 0x80, CHR 0x88], [CHR 0xE2, CHR 0x80, CHR 0x89],
      [CHR 0xE2, CHR 0x80, CHR 0x8A],
      [CHR 0xE2, CHR 0x80, CHR 0xA8], [CHR 0xE2, CHR 0x80, CHR 0xA9],
      [CHR 0xE2, CHR 0x80, CHR 0xAF],
      [CHR 0xE2, CHR 0x81, CHR 0x9F],
      [CHR 0xE3, CHR 0x80, CHR 0x80],
      [CHR 0xEF, CHR 0xBB, CHR 0xBF]]"

text \<open>One \<open>\s\<close> at the head of the string: the rest behind it, if there is one.\<close>

definition strip_space :: "string \<Rightarrow> string option" where
  "strip_space s =
     (case find (\<lambda>t. prefix t s) space_seqs of
        None \<Rightarrow> None
      | Some t \<Rightarrow> Some (drop (length t) s))"

lemma strip_space_shorter: "strip_space s = Some r \<Longrightarrow> length r < length s"
proof -
  assume a: "strip_space s = Some r"
  then obtain t where t: "find (\<lambda>t. prefix t s) space_seqs = Some t" and r: "r = drop (length t) s"
    by (auto simp: strip_space_def split: option.splits)
  from t have "t \<in> set space_seqs" and p: "prefix t s"
    by (auto simp: find_Some_iff)
  then have "t \<noteq> []"
    by (auto simp: space_seqs_def)
  with p r show ?thesis
    by (cases s) (auto simp: prefix_def)
qed

text \<open>The rest of a greedy \<open>\s*\<close>: every leading white space character removed.\<close>

function skip_spaces :: "string \<Rightarrow> string" where
  "skip_spaces s = (case strip_space s of None \<Rightarrow> s | Some r \<Rightarrow> skip_spaces r)"
  by pat_completeness auto
termination
  by (relation "measure length") (auto simp: strip_space_shorter)

declare skip_spaces.simps [simp del]

text \<open>
  \<open>\s+(\w+)\<close>: at least one \<open>\s\<close>, then the longest run of \<open>\w\<close>, which must not be
  empty and is the capture. The two classes are disjoint, so no backtracking can find
  another match.
\<close>

definition space_then_word :: "string \<Rightarrow> string option" where
  "space_then_word r1 =
     (case strip_space r1 of
        None \<Rightarrow> None
      | Some r2 \<Rightarrow>
          (let w = takeWhile is_word (skip_spaces r2) in if w = [] then None else Some w))"

text \<open>
  \<open>line.match(...)\<close>: the second capture group when the line matches. The match is
  anchored at the start of the line; the alternatives \<open>FAIL\<close> and \<open>ERROR\<close> are tried in
  order, then the colon.
\<close>

definition failMatch :: "string \<Rightarrow> string option" where
  "failMatch line =
     (case (if prefix ''FAIL'' line then Some (drop 4 line)
            else if prefix ''ERROR'' line then Some (drop 5 line)
            else None) of
        None \<Rightarrow> None
      | Some r0 \<Rightarrow>
          (case r0 of
             [] \<Rightarrow> None
           | c # r1 \<Rightarrow> if c \<noteq> CHR '':'' then None else space_then_word r1))"

record TestEntry =
  test_name :: string
  test_status :: string
  details :: "string option"

text \<open>The body of \<open>lines.forEach\<close>: one push per matching line.\<close>

definition push_fail :: "TestEntry list \<Rightarrow> string \<Rightarrow> TestEntry list" where
  "push_fail tests line =
     (case failMatch line of
        None \<Rightarrow> tests
      | Some n \<Rightarrow> tests @ [\<lparr>test_name = n, test_status = ''FAIL'', details = None\<rparr>])"

definition parsedTests :: "string \<Rightarrow> TestEntry list" where
  "parsedTests out =
     (let lines = split_nl out;
          tests = foldl push_fail [] lines
      in if length tests = 0 \<and> includes_str out ''OK''
         then tests @ [\<lparr>test_name = ''All Tests'', test_status = ''PASS'',
                        details = Some ''Full suite passed''\<rparr>]
         else tests)"

section \<open>Reference definitions for the properties\<close>




text \<open>The two kinds of entry the parser produces.\<close>

definition fail_entry :: "string \<Rightarrow> TestEntry" where
  "fail_entry n = \<lparr>test_name = n, test_status = ''FAIL'', details = None\<rparr>"

definition pass_entry :: TestEntry where
  "pass_entry =
     \<lparr>test_name = ''All Tests'', test_status = ''PASS'', details = Some ''Full suite passed''\<rparr>"

text \<open>
  What it means for a line to match the pattern with capture \<open>n\<close>: the line is
  \<open>FAIL:\<close> or \<open>ERROR:\<close>, a non-empty run of white space, the identifier \<open>n\<close> made of
  word characters, and a rest that does not continue the identifier.
\<close>

definition space_run :: "string \<Rightarrow> bool" where
  "space_run ws = (\<exists>ts. ts \<noteq> [] \<and> set ts \<subseteq> set space_seqs \<and> ws = concat ts)"

definition fail_line :: "string \<Rightarrow> string \<Rightarrow> bool" where
  "fail_line line n =
     (\<exists>tag ws rest.
        (tag = ''FAIL:'' \<or> tag = ''ERROR:'') \<and> line = tag @ ws @ n @ rest \<and>
        space_run ws \<and> n \<noteq> [] \<and> (\<forall>c\<in>set n. is_word c) \<and>
        (rest = [] \<or> \<not> is_word (hd rest)))"

text \<open>Putting lines together again with a newline between them.\<close>

fun join_nl :: "string list \<Rightarrow> string" where
  "join_nl [] = []"
| "join_nl [l] = l"
| "join_nl (l # ls) = l @ [CHR 0x0A] @ join_nl ls"

section \<open>Example inputs\<close>


definition pending_job :: ScanResult where
  "pending_job =
     \<lparr>scan_id = 1, repo = ''https://github.com/acme/shop'', status = ''pending'',
      created_at = ''2024-01-01T00:00:00Z'', ended_at = None, tokens_used = 0\<rparr>"


definition finished_job :: ScanResult where
  "finished_job =
     \<lparr>scan_id = 3, repo = ''https://github.com/acme/shop'', status = ''Finished'',
      created_at = ''2024-01-01T00:00:00Z'', ended_at = Some ''2024-01-01T00:10:00Z'',
      tokens_used = 0\<rparr>"

definition remediation_log :: ScanLog where
  "remediation_log =
     \<lparr>step = ''Remediation'', tokens_input = 0, tokens_output = 750, tokens_total = 0,
      model = ''gpt-4o'', message = ''patched 1 file'', timestamp = ''2024-01-01T00:05:00Z''\<rparr>"



definition idle_dashboard :: Dashboard where
  "idle_dashboard =
     \<lparr>scans = [pending_job], loading = False, error = Some ''Failed to fetch scans'',
      selectedScanId = None, scanLogs = [], logsLoading = False, reportScanId = None,
      currentTime = 1704067265000\<rparr>"


section \<open>Token ledger\<close>

lemma fallbacks_lookup:
  "fallbacks s =
     (if s = ''Remediation'' then Some \<lparr>fb_input = 400, fb_output = 600\<rparr>
      else if s = ''Ecosystem Detection'' then Some \<lparr>fb_input = 150, fb_output = 200\<rparr>
      else None)"
  by (simp add: fallbacks_def)

text \<open>
  C2. For every phase log, the effective input is \<open>tokens_input\<close> when that is positive,
  and otherwise the estimate of the table for exactly that phase name: 150 for
  \<open>Ecosystem Detection\<close>, 400 for \<open>Remediation\<close>, 0 for every other name. The effective
  output is \<open>tokens_output\<close> when positive and otherwise 200, 600 or 0.
\<close>

theorem effective_input_output:
  "getInput log =
     (if tokens_input log > 0 then tokens_input log
      else if step log = ''Ecosystem Detection'' then 150
      else if step log = ''Remediation'' then 400
      else 0) \<and>
   getOutput log =
     (if tokens_output log > 0 then tokens_output log
      else if step log = ''Ecosystem Detection'' then 200
      else if step log = ''Remediation'' then 600
      else 0)"
  by (simp add: getInput_def getOutput_def fallbacks_lookup)

theorem effective_input_output_witness:
  "getInput remediation_log = 400 \<and> getOutput remediation_log = 750"
  using effective_input_output [of remediation_log]
  by (simp add: remediation_log_def)





text \<open>
  C9. The token cell of a job row shows the job's own \<open>tokens_used\<close> when it is
  positive; otherwise the constant placeholder \<open>~1,200\<close> when the status is
  \<open>finished\<close> in any letter case, and the em dash otherwise.
\<close>

theorem token_cell_cases:
  "tokenCell toLocaleString scan =
     (if tokens_used scan > 0 then toLocaleString (tokens_used scan)
      else if toLowerCase (status scan) = ''finished'' then ''~1,200''
      else [CHR 0xE2, CHR 0x80, CHR 0x94])"
  by (simp add: tokenCell_def em_dash_def)

theorem token_cell_cases_witness:
  "tokenCell Number_toString finished_job = ''~1,200'' \<and>
   tokenCell Number_toString pending_job = [CHR 0xE2, CHR 0x80, CHR 0x94]"
proof -
  have f: "toLowerCase (status finished_job) = ''finished''"
    by code_simp
  have p: "toLowerCase (status pending_job) \<noteq> ''finished''"
    by code_simp
  have t: "tokens_used finished_job = 0" "tokens_used pending_job = 0"
    by (simp_all add: finished_job_def pending_job_def)
  from token_cell_cases [of Number_toString finished_job]
    token_cell_cases [of Number_toString pending_job] f p t
  show ?thesis by simp
qed

section \<open>Job list poller\<close>

text \<open>
  C8. A silent refresh leaves the loading flag and the error flag as they were,
  whatever the outcome of the request; when the request fails it changes nothing at
  all, and when it succeeds it only replaces the job table by the fetched list. This
  holds for the call as a whole and for each of its two parts on any state.
\<close>

theorem silent_refresh_frame:
  "loading (fetchScans True outcome st) = loading st \<and>
   error (fetchScans True outcome st) = error st \<and>
   fetchScans True Rejected st = st \<and>
   fetchScans True (Resolved data) st = st\<lparr>scans := data\<rparr> \<and>
   fetchScans_begin True st = st \<and>
   fetchScans_settle True Rejected st = st \<and>
   fetchScans_settle True (Resolved data) st = st\<lparr>scans := data\<rparr>"
  by (cases outcome) (simp_all add: fetchScans_def fetchScans_begin_def fetchScans_settle_def)

theorem silent_refresh_frame_witness:
  "fetchScans True Rejected idle_dashboard = idle_dashboard \<and>
   error (fetchScans True (Resolved [finished_job]) idle_dashboard)
     = Some ''Failed to fetch scans'' \<and>
   scans (fetchScans True (Resolved [finished_job]) idle_dashboard) = [finished_job]"
proof -
  have e: "error idle_dashboard = Some ''Failed to fetch scans''"
    by (simp add: idle_dashboard_def)
  from silent_refresh_frame [of "Resolved [finished_job]" idle_dashboard "[finished_job]"] e
  show ?thesis by simp
qed

section \<open>Duration calculator\<close>
















section \<open>Pipeline health\<close>



section \<open>Verification log parser\<close>

subsection \<open>The loop and the final test\<close>

lemma push_fail_eq: "push_fail acc l = acc @ map fail_entry (List.map_filter failMatch [l])"
  by (cases "failMatch l") (simp_all add: push_fail_def fail_entry_def List.map_filter_simps)

lemma foldl_push_fail:
  "foldl push_fail acc lines = acc @ map fail_entry (List.map_filter failMatch lines)"
proof (induction lines arbitrary: acc)
  case Nil
  show ?case by (simp add: List.map_filter_simps)
next
  case (Cons l ls)
  have "foldl push_fail acc (l # ls) = foldl push_fail (push_fail acc l) ls"
    by simp
  also have "\<dots> = push_fail acc l @ map fail_entry (List.map_filter failMatch ls)"
    by (rule Cons.IH)
  also have "\<dots> = acc @ map fail_entry (List.map_filter failMatch (l # ls))"
    by (cases "failMatch l") (simp_all add: push_fail_eq List.map_filter_simps)
  finally show ?case .
qed

lemma parsedTests_eq:
  "parsedTests out =
     (if List.map_filter failMatch (split_nl out) = [] \<and> includes_str out ''OK''
      then [pass_entry]
      else map fail_entry (List.map_filter failMatch (split_nl out)))"
  by (simp add: parsedTests_def Let_def foldl_push_fail pass_entry_def)

lemma map_filter_empty_iff:
  "List.map_filter f xs = [] \<longleftrightarrow> (\<forall>x\<in>set xs. f x = None)"
proof (induction xs)
  case Nil
  show ?case by (simp add: List.map_filter_simps)
next
  case (Cons x xs)
  then show ?case
    by (cases "f x") (simp_all add: List.map_filter_simps)
qed

lemma includes_str_iff: "includes_str s t \<longleftrightarrow> (\<exists>p q. s = p @ t @ q)"
  by (simp add: includes_str_def sublist_def)

subsection \<open>The pattern\<close>

lemma space_seqs_prefix_free:
  "\<forall>a\<in>set space_seqs. \<forall>b\<in>set space_seqs. prefix a b \<longrightarrow> a = b"
  by code_simp

lemma space_seqs_heads: "\<forall>t\<in>set space_seqs. t \<noteq> [] \<and> \<not> is_word (hd t)"
  by code_simp

lemma strip_space_seq:
  assumes t: "t \<in> set space_seqs"
  shows "strip_space (t @ r) = Some r"
proof -
  have "find (\<lambda>u. prefix u (t @ r)) space_seqs \<noteq> None"
    using t by (auto simp: find_None_iff)
  then obtain u where u: "find (\<lambda>u. prefix u (t @ r)) space_seqs = Some u"
    by blast
  then have m: "u \<in> set space_seqs" and p: "prefix u (t @ r)"
    by (auto simp: find_Some_iff)
  have "prefix t (t @ r)" by simp
  with p have "prefix u t \<or> prefix t u"
    by (rule prefix_same_cases)
  with m t have "u = t"
    using space_seqs_prefix_free by blast
  with u show ?thesis
    by (simp add: strip_space_def)
qed

lemma strip_space_word:
  assumes "is_word c"
  shows "strip_space (c # r) = None"
proof -
  have "\<not> prefix t (c # r)" if "t \<in> set space_seqs" for t
  proof
    assume p: "prefix t (c # r)"
    from that have "t \<noteq> []" and "\<not> is_word (hd t)"
      using space_seqs_heads by auto
    with p assms show False
      by (cases t) auto
  qed
  then have "find (\<lambda>t. prefix t (c # r)) space_seqs = None"
    by (auto simp: find_None_iff)
  then show ?thesis by (simp add: strip_space_def)
qed

lemma strip_space_Some:
  "strip_space s = Some r \<Longrightarrow> \<exists>t \<in> set space_seqs. s = t @ r"
proof -
  assume "strip_space s = Some r"
  then obtain t where t: "find (\<lambda>t. prefix t s) space_seqs = Some t" and r: "r = drop (length t) s"
    by (auto simp: strip_space_def split: option.splits)
  from t have m: "t \<in> set space_seqs" and p: "prefix t s"
    by (auto simp: find_Some_iff)
  from p r have "s = t @ r" by (auto simp: prefix_def)
  with m show ?thesis by blast
qed

lemma skip_spaces_None: "strip_space s = None \<Longrightarrow> skip_spaces s = s"
  by (subst skip_spaces.simps) simp

lemma skip_spaces_Some: "strip_space s = Some r \<Longrightarrow> skip_spaces s = skip_spaces r"
  by (subst skip_spaces.simps) simp

lemma skip_spaces_decomp:
  "\<exists>ts. set ts \<subseteq> set space_seqs \<and> s = concat ts @ skip_spaces s"
proof (induction s rule: skip_spaces.induct)
  case (1 s)
  show ?case
  proof (cases "strip_space s")
    case None
    then have "set [] \<subseteq> set space_seqs \<and> s = concat [] @ skip_spaces s"
      by (simp add: skip_spaces_None)
    then show ?thesis by blast
  next
    case (Some r)
    then obtain t where t: "t \<in> set space_seqs" and s: "s = t @ r"
      using strip_space_Some by blast
    from "1.IH" [OF Some] obtain ts where ts: "set ts \<subseteq> set space_seqs"
      and r: "r = concat ts @ skip_spaces r"
      by blast
    have "skip_spaces s = skip_spaces r"
      using Some by (rule skip_spaces_Some)
    with t ts s r have "set (t # ts) \<subseteq> set space_seqs \<and> s = concat (t # ts) @ skip_spaces s"
      by simp
    then show ?thesis by blast
  qed
qed

lemma skip_spaces_concat:
  "set ts \<subseteq> set space_seqs \<Longrightarrow> strip_space r = None \<Longrightarrow> skip_spaces (concat ts @ r) = r"
proof (induction ts)
  case Nil
  then show ?case by (simp add: skip_spaces_None)
next
  case (Cons t ts)
  then have "strip_space (t @ (concat ts @ r)) = Some (concat ts @ r)"
    by (simp add: strip_space_seq)
  then have "skip_spaces (t @ (concat ts @ r)) = skip_spaces (concat ts @ r)"
    by (rule skip_spaces_Some)
  with Cons show ?case by simp
qed

lemma failMatch_FAIL: "failMatch (''FAIL:'' @ r1) = space_then_word r1"
  by (simp add: failMatch_def)

lemma failMatch_ERROR: "failMatch (''ERROR:'' @ r1) = space_then_word r1"
  by (simp add: failMatch_def)

lemma failMatch_tag:
  assumes "failMatch line = Some n"
  shows "\<exists>tag r1. (tag = ''FAIL:'' \<or> tag = ''ERROR:'') \<and> line = tag @ r1 \<and> space_then_word r1 = Some n"
proof -
  define r0 where "r0 = (if prefix ''FAIL'' line then Some (drop 4 line)
            else if prefix ''ERROR'' line then Some (drop 5 line) else None)"
  from assms obtain r1 where r: "r0 = Some (CHR '':'' # r1)" and a: "space_then_word r1 = Some n"
    unfolding failMatch_def r0_def [symmetric]
    by (auto split: option.splits list.splits if_splits)
  consider "prefix ''FAIL'' line" "drop 4 line = CHR '':'' # r1"
    | "prefix ''ERROR'' line" "drop 5 line = CHR '':'' # r1"
    using r unfolding r0_def by (auto split: if_splits)
  then show ?thesis
  proof cases
    case 1
    then have "line = ''FAIL'' @ drop 4 line"
      by (auto simp: prefix_def)
    with 1 have "line = ''FAIL:'' @ r1" by simp
    with a show ?thesis by blast
  next
    case 2
    then have "line = ''ERROR'' @ drop 5 line"
      by (auto simp: prefix_def)
    with 2 have "line = ''ERROR:'' @ r1" by simp
    with a show ?thesis by blast
  qed
qed

lemma space_then_word_sound:
  assumes "space_then_word r1 = Some n"
  shows "\<exists>ws rest. r1 = ws @ n @ rest \<and> space_run ws \<and> n \<noteq> [] \<and>
           (\<forall>c\<in>set n. is_word c) \<and> (rest = [] \<or> \<not> is_word (hd rest))"
proof -
  from assms obtain r2 where s: "strip_space r1 = Some r2"
    and n: "n = takeWhile is_word (skip_spaces r2)" and ne: "n \<noteq> []"
    by (auto simp: space_then_word_def Let_def split: option.splits if_splits)
  from s obtain t where t: "t \<in> set space_seqs" and r1: "r1 = t @ r2"
    using strip_space_Some by blast
  obtain ts where ts: "set ts \<subseteq> set space_seqs" and r2: "r2 = concat ts @ skip_spaces r2"
    using skip_spaces_decomp by blast
  define rest where "rest = dropWhile is_word (skip_spaces r2)"
  have k: "skip_spaces r2 = n @ rest"
    by (simp add: n rest_def)
  have "space_run (concat (t # ts))"
    unfolding space_run_def using t ts by (intro exI [of _ "t # ts"]) simp
  moreover have "r1 = concat (t # ts) @ n @ rest"
    using r1 r2 k by simp
  moreover have "\<forall>c\<in>set n. is_word c"
    using n by (auto dest: set_takeWhileD)
  moreover have "rest = [] \<or> \<not> is_word (hd rest)"
    unfolding rest_def using hd_dropWhile [of is_word "skip_spaces r2"] by blast
  ultimately show ?thesis using ne by blast
qed

lemma space_then_word_complete:
  assumes "space_run ws" and "n \<noteq> []" and "\<forall>c\<in>set n. is_word c"
    and "rest = [] \<or> \<not> is_word (hd rest)"
  shows "space_then_word (ws @ n @ rest) = Some n"
proof -
  from assms(1) obtain t ts where t: "t \<in> set space_seqs" and ts: "set ts \<subseteq> set space_seqs"
    and ws: "ws = t @ concat ts"
  proof -
    from assms(1) obtain us where us: "us \<noteq> []" "set us \<subseteq> set space_seqs" "ws = concat us"
      unfolding space_run_def by blast
    then obtain u us' where "us = u # us'" by (cases us) auto
    with us have "u \<in> set space_seqs" "set us' \<subseteq> set space_seqs" "ws = u @ concat us'"
      by simp_all
    then show ?thesis by (rule that)
  qed
  from assms(2) obtain c n' where n: "n = c # n'" by (cases n) auto
  with assms(3) have "is_word c" by simp
  then have "strip_space (n @ rest) = None"
    using n by (simp add: strip_space_word)
  with ts have "skip_spaces (concat ts @ (n @ rest)) = n @ rest"
    by (rule skip_spaces_concat)
  moreover have "strip_space (t @ (concat ts @ n @ rest)) = Some (concat ts @ n @ rest)"
    using t by (rule strip_space_seq)
  moreover have "takeWhile is_word (n @ rest) = n"
  proof -
    have "takeWhile is_word rest = []"
      using assms(4) by (cases rest) auto
    with assms(3) show ?thesis by (simp add: takeWhile_append2)
  qed
  ultimately show ?thesis
    using assms(2) by (simp add: space_then_word_def ws)
qed

lemma failMatch_iff: "failMatch line = Some n \<longleftrightarrow> fail_line line n"
proof
  assume "failMatch line = Some n"
  then obtain tag r1 where tag: "tag = ''FAIL:'' \<or> tag = ''ERROR:''" and l: "line = tag @ r1"
    and a: "space_then_word r1 = Some n"
    using failMatch_tag by blast
  from space_then_word_sound [OF a] obtain ws rest where "r1 = ws @ n @ rest" "space_run ws" "n \<noteq> []"
    "\<forall>c\<in>set n. is_word c" "rest = [] \<or> \<not> is_word (hd rest)"
    by blast
  with tag l show "fail_line line n"
    unfolding fail_line_def by blast
next
  assume "fail_line line n"
  then obtain tag ws rest where tag: "tag = ''FAIL:'' \<or> tag = ''ERROR:''"
    and l: "line = tag @ ws @ n @ rest" and h: "space_run ws" "n \<noteq> []" "\<forall>c\<in>set n. is_word c"
      "rest = [] \<or> \<not> is_word (hd rest)"
    unfolding fail_line_def by blast
  have "space_then_word (ws @ n @ rest) = Some n"
    using h by (rule space_then_word_complete)
  with tag l show "failMatch line = Some n"
    using failMatch_FAIL [of "ws @ n @ rest"] failMatch_ERROR [of "ws @ n @ rest"] by auto
qed

subsection \<open>Lines, entries and the two outcomes\<close>

lemma split_nl_nonempty: "split_nl s \<noteq> []"
  by (induction s) (simp_all split: list.splits)

lemma split_nl_no_newline: "\<forall>l\<in>set (split_nl s). CHR 0x0A \<notin> set l"
proof (induction s)
  case Nil
  show ?case by simp
next
  case (Cons c cs)
  obtain l ls where sp: "split_nl cs = l # ls"
    using split_nl_nonempty [of cs] by (cases "split_nl cs") auto
  with Cons show ?case by auto
qed

lemma join_nl_Cons: "ls \<noteq> [] \<Longrightarrow> join_nl (l # ls) = l @ [CHR 0x0A] @ join_nl ls"
  by (cases ls) simp_all

lemma join_nl_push: "join_nl ((c # l) # ls) = c # join_nl (l # ls)"
  by (cases ls) simp_all

lemma join_split_nl: "join_nl (split_nl s) = s"
proof (induction s)
  case Nil
  show ?case by simp
next
  case (Cons c cs)
  obtain l ls where sp: "split_nl cs = l # ls"
    using split_nl_nonempty [of cs] by (cases "split_nl cs") auto
  show ?case
  proof (cases "c = CHR 0x0A")
    case True
    with Cons sp show ?thesis
      by (simp add: join_nl_Cons)
  next
    case False
    with Cons sp show ?thesis
      by (simp add: join_nl_push)
  qed
qed

lemma map_filter_eq:
  "List.map_filter f xs = map (\<lambda>x. the (f x)) (filter (\<lambda>x. f x \<noteq> None) xs)"
  by (simp add: List.map_filter_def comp_def)

lemma parsedTests_cases: "parsedTests out =
     (if \<forall>line\<in>set (split_nl out). failMatch line = None
      then (if includes_str out ''OK'' then [pass_entry] else [])
      else map (\<lambda>line. fail_entry (the (failMatch line)))
             (filter (\<lambda>line. failMatch line \<noteq> None) (split_nl out)))"
proof (cases "\<forall>line\<in>set (split_nl out). failMatch line = None")
  case True
  then have "List.map_filter failMatch (split_nl out) = []"
    by (simp add: map_filter_empty_iff)
  with True show ?thesis
    by (simp add: parsedTests_eq)
next
  case False
  then have "List.map_filter failMatch (split_nl out) \<noteq> []"
    by (simp add: map_filter_empty_iff)
  with False show ?thesis
    by (simp add: parsedTests_eq map_filter_eq comp_def)
qed

lemma pass_status: "test_status pass_entry = ''PASS''"
  by (simp add: pass_entry_def)

lemma fail_status: "test_status (fail_entry n) = ''FAIL''"
  by (simp add: fail_entry_def)

text \<open>
  C4. On any input the parser returns one \<open>FAIL\<close> entry, named by the captured
  identifier, for each line that matches the pattern, in the order of the lines; when
  no line matches, it returns the single all-tests-passed entry if the input contains
  \<open>OK\<close> and nothing otherwise. A line matches with capture \<open>n\<close> exactly when it is
  \<open>FAIL:\<close> or \<open>ERROR:\<close>, white space, the identifier \<open>n\<close> and a rest that does not
  continue the identifier; the lines are the pieces of the input between newlines.
  The two-line input with \<open>test_foo\<close> and \<open>test_bar\<close> gives exactly these two entries,
  and the empty input gives none.
\<close>

theorem verification_log_parser:
  "parsedTests out =
     (if \<forall>line\<in>set (split_nl out). failMatch line = None
      then (if includes_str out ''OK'' then [pass_entry] else [])
      else map (\<lambda>line. fail_entry (the (failMatch line)))
             (filter (\<lambda>line. failMatch line \<noteq> None) (split_nl out))) \<and>
   (failMatch line = Some n \<longleftrightarrow> fail_line line n) \<and>
   (includes_str out ''OK'' \<longleftrightarrow> (\<exists>p q. out = p @ ''OK'' @ q)) \<and>
   join_nl (split_nl out) = out \<and> (\<forall>l\<in>set (split_nl out). CHR 0x0A \<notin> set l) \<and>
   parsedTests (''FAIL: test_foo (Case)'' @ [CHR 0x0A] @ ''ERROR: test_bar'')
     = [fail_entry ''test_foo'', fail_entry ''test_bar''] \<and>
   parsedTests '''' = []"
proof (intro conjI)
  show "parsedTests (''FAIL: test_foo (Case)'' @ [CHR 0x0A] @ ''ERROR: test_bar'')
     = [fail_entry ''test_foo'', fail_entry ''test_bar'']"
    by code_simp
  show "parsedTests '''' = []"
    by code_simp
qed (rule parsedTests_cases failMatch_iff includes_str_iff join_split_nl split_nl_no_newline)+

theorem verification_log_parser_witness:
  "includes_str ''Ran 3 tests in 0.01s OK'' ''OK'' \<and>
   failMatch ''Ran 3 tests in 0.01s OK'' = None \<and>
   parsedTests ''Ran 3 tests in 0.01s OK'' = [pass_entry] \<and>
   fail_line ''FAIL: test_foo (Case)'' ''test_foo''"
proof -
  have a: "includes_str ''Ran 3 tests in 0.01s OK'' ''OK''"
    by code_simp
  have b: "failMatch ''Ran 3 tests in 0.01s OK'' = None"
    by code_simp
  have s: "split_nl ''Ran 3 tests in 0.01s OK'' = [''Ran 3 tests in 0.01s OK'']"
    by code_simp
  have c: "failMatch ''FAIL: test_foo (Case)'' = Some ''test_foo''"
    by code_simp
  note t = verification_log_parser [of "''Ran 3 tests in 0.01s OK''" "''FAIL: test_foo (Case)''"
      "''test_foo''"]
  have all: "\<forall>line\<in>set (split_nl ''Ran 3 tests in 0.01s OK''). failMatch line = None"
    unfolding s using b by simp
  have "parsedTests ''Ran 3 tests in 0.01s OK'' = [pass_entry]"
    by (subst t [THEN conjunct1], subst if_P [OF all], subst if_P [OF a], rule refl)
  moreover have "fail_line ''FAIL: test_foo (Case)'' ''test_foo''"
    using t [THEN conjunct2, THEN conjunct1] c by (rule iffD1)
  ultimately show ?thesis
    using a b by (intro conjI)
qed

text \<open>
  C10. On any input every entry of the result has status \<open>FAIL\<close> or \<open>PASS\<close>; an entry
  with status \<open>PASS\<close> is the only element of the result; there is such an entry exactly
  when no line matches the pattern and the input contains \<open>OK\<close>; and a result with a
  \<open>FAIL\<close> entry has no \<open>PASS\<close> entry.
\<close>

theorem parser_never_mixes:
  "(\<forall>e\<in>set (parsedTests out). test_status e = ''FAIL'' \<or> test_status e = ''PASS'') \<and>
   (\<forall>e\<in>set (parsedTests out). test_status e = ''PASS'' \<longrightarrow> parsedTests out = [e]) \<and>
   ((\<exists>e\<in>set (parsedTests out). test_status e = ''PASS'') \<longleftrightarrow>
      (\<forall>line\<in>set (split_nl out). failMatch line = None) \<and> includes_str out ''OK'') \<and>
   ((\<exists>e\<in>set (parsedTests out). test_status e = ''FAIL'') \<longrightarrow>
      (\<forall>e\<in>set (parsedTests out). test_status e \<noteq> ''PASS''))"
proof -
  define P where "P = ((\<forall>line\<in>set (split_nl out). failMatch line = None) \<and> includes_str out ''OK'')"
  define F :: string where "F = ''FAIL''"
  define Q :: string where "Q = ''PASS''"
  have d: "F \<noteq> Q" by (simp add: F_def Q_def)
  have goal: "(\<forall>e\<in>set (parsedTests out). test_status e = F \<or> test_status e = Q) \<and>
   (\<forall>e\<in>set (parsedTests out). test_status e = Q \<longrightarrow> parsedTests out = [e]) \<and>
   ((\<exists>e\<in>set (parsedTests out). test_status e = Q) \<longleftrightarrow> P) \<and>
   ((\<exists>e\<in>set (parsedTests out). test_status e = F) \<longrightarrow>
      (\<forall>e\<in>set (parsedTests out). test_status e \<noteq> Q))"
  proof (cases P)
    case True
    then have p: "parsedTests out = [pass_entry]"
      unfolding P_def by (simp add: parsedTests_cases)
    have "test_status pass_entry = Q"
      unfolding Q_def by (rule pass_status)
    with p True d show ?thesis by simp
  next
    case False
    have s: "test_status e = F" if "e \<in> set (parsedTests out)" for e
    proof (cases "\<forall>line\<in>set (split_nl out). failMatch line = None")
      case True
      with False have "parsedTests out = []"
        unfolding P_def by (simp add: parsedTests_cases)
      with that show ?thesis by simp
    next
      case False
      then have "parsedTests out = map (\<lambda>line. fail_entry (the (failMatch line)))
             (filter (\<lambda>line. failMatch line \<noteq> None) (split_nl out))"
        by (simp add: parsedTests_cases)
      with that obtain l where "e = fail_entry (the (failMatch l))"
        by auto
      then show ?thesis
        unfolding F_def by (simp only: fail_status)
    qed
    with False d show ?thesis by auto
  qed
  then show ?thesis
    unfolding P_def F_def Q_def .
qed

theorem parser_never_mixes_witness:
  "test_status pass_entry = ''PASS'' \<and>
   pass_entry \<in> set (parsedTests ''Ran 3 tests in 0.01s OK'') \<and>
   parsedTests ''Ran 3 tests in 0.01s OK'' = [pass_entry]"
proof -
  have a: "test_status pass_entry = ''PASS''"
    by (rule pass_status)
  have b: "pass_entry \<in> set (parsedTests ''Ran 3 tests in 0.01s OK'')"
    by code_simp
  note t = parser_never_mixes [of "''Ran 3 tests in 0.01s OK''"]
  have "test_status pass_entry = ''PASS'' \<longrightarrow>
      parsedTests ''Ran 3 tests in 0.01s OK'' = [pass_entry]"
    using t [THEN conjunct2, THEN conjunct1] b by (rule bspec)
  then have "parsedTests ''Ran 3 tests in 0.01s OK'' = [pass_entry]"
    using a by (rule mp)
  with a b show ?thesis by (intro conjI)
qed

section \<open>Report view\<close>


lemma Object_keys_empty_iff:
  "Object_keys env = [] \<longleftrightarrow>
     scanner env = None \<and> ecosystem env = None \<and> analysis env = None \<and>
     remediation env = None \<and> verification env = None \<and> summary env = None \<and>
     env_error env = None"
  by (simp add: Object_keys_def)



end
